theory Spec2Isabelle
  imports Main "HOL-Library.Word"
begin

section \<open>Data model (main.go, lines 13-36)\<close>

text \<open>
  Go's \<open>int\<close> is a machine integer of the target's word size, and arithmetic on it
  wraps around silently. The model takes the 64 bits of the usual targets (amd64, arm64):
  an \<open>int\<close> is a 64-bit word, \<open>+\<close> wraps, and \<open>sint\<close> reads the signed value that Go's
  comparisons use. Go strings are byte sequences, modelled as \<open>string\<close> (a list of 8-bit
  characters).
\<close>

type_synonym go_int = "64 word"

record User =
  ID :: go_int
  Name :: string
  Email :: string
  Age :: go_int

text \<open>
  The field \<open>Data interface{}\<close> of \<open>Response\<close> holds a dynamic value. The handlers store
  nothing in it (the nil interface), a \<open>*User\<close>, a \<open>User\<close>, or a \<open>[]User\<close>; a slice is
  either nil (\<open>None\<close>) or has elements (\<open>Some\<close>), and a nil slice stored in the interface
  is not the nil interface.
\<close>

datatype payload =
    NilInterface
  | UserPointer User
  | UserValue User
  | UserSlice "User list option"

record Response =
  Success :: bool
  Data :: payload
  Message :: string
  Error :: string
  Code :: go_int

text \<open>The two package-level variables \<open>users\<close> and \<open>nextID\<close> are the whole state.\<close>

record store =
  users :: "User list"
  nextID :: go_int

definition seedUsers :: "User list" where
  "seedUsers =
    [\<lparr>ID = 1, Name = ''John Doe'', Email = ''john@example.com'', Age = 30\<rparr>,
     \<lparr>ID = 2, Name = ''Jane Smith'', Email = ''jane@example.com'', Age = 25\<rparr>,
     \<lparr>ID = 3, Name = ''Bob Wilson'', Email = ''bob@example.com'', Age = 35\<rparr>]"

definition initial :: store where
  "initial = \<lparr>users = seedUsers, nextID = 4\<rparr>"

definition StatusOK :: go_int where "StatusOK = 200"
definition StatusCreated :: go_int where "StatusCreated = 201"
definition StatusBadRequest :: go_int where "StatusBadRequest = 400"
definition StatusNotFound :: go_int where "StatusNotFound = 404"

section \<open>The standard-library functions the handlers call\<close>

subsection \<open>strings.TrimSpace\<close>

text \<open>
  \<open>strings.TrimSpace\<close> removes leading and trailing white space as \<open>unicode.IsSpace\<close>
  defines it: the code points U+0009..U+000D, U+0020, U+0085, U+00A0, U+1680,
  U+2000..U+200A, U+2028, U+2029, U+202F, U+205F and U+3000. \<open>spaceRunes\<close> lists their
  UTF-8 encodings; a byte sequence that is not one of them decodes to a rune that is not
  white space.
\<close>

definition spaceRunes :: "string list" where
  "spaceRunes =
    [[CHR 0x09], [CHR 0x0A], [CHR 0x0B], [CHR 0x0C], [CHR 0x0D], [CHR 0x20],
     [CHR 0xC2, CHR 0x85], [CHR 0xC2, CHR 0xA0],
     [CHR 0xE1, CHR 0x9A, CHR 0x80],
     [CHR 0xE2, CHR 0x80, CHR 0x80], [CHR 0xE2, CHR 0x80, CHR 0x81],
     [CHR 0xE2, CHR 0x80, CHR 0x82], [CHR 0xE2, CHR 0x80, CHR 0x83],
     [CHR 0xE2, CHR 0x80, CHR 0x84], [CHR 0xE2, CHR 0x80, CHR 0x85],
     [CHR 0xE2, CHR 0x80, CHR 0x86], [CHR 0xE2, CHR 0x80, CHR 0x87],
     [CHR 0xE2, CHR 0x80, CHR 0x88], [CHR 0xE2, CHR 0x80, CHR 0x89],
     [CHR 0xE2, CHR 0x80, CHR 0x8A],
     [CHR 0xE2, CHR 0x80, CHR 0xA8], [CHR 0xE2, CHR 0x80, CHR 0xA9],
     [CHR 0xE2, CHR 0x80, CHR 0xAF], [CHR 0xE2, CHR 0x81, CHR 0x9F],
     [CHR 0xE3, CHR 0x80, CHR 0x80]]"

definition startsWith :: "string \<Rightarrow> string \<Rightarrow> bool" where
  "startsWith s p = (take (length p) s = p)"

definition spaceWidth :: "string list \<Rightarrow> string \<Rightarrow> nat" where
  "spaceWidth runes s =
     (case find (startsWith s) runes of None \<Rightarrow> 0 | Some r \<Rightarrow> length r)"

function trimLeftRunes :: "string list \<Rightarrow> string \<Rightarrow> string" where
  "trimLeftRunes runes s =
     (if spaceWidth runes s = 0 then s
      else trimLeftRunes runes (drop (spaceWidth runes s) s))"
  by pat_completeness auto
termination
proof (relation "measure (\<lambda>(runes, s). length s)")
  show "wf (measure (\<lambda>(runes, s). length s))" by simp
next
  fix runes :: "string list" and s :: string
  assume w: "spaceWidth runes s \<noteq> 0"
  then obtain r where r: "find (startsWith s) runes = Some r" "r \<noteq> []"
    by (auto simp: spaceWidth_def split: option.splits)
  then have "startsWith s r" by (auto simp: find_Some_iff)
  with r have "s \<noteq> []" by (auto simp: startsWith_def)
  with w show "((runes, drop (spaceWidth runes s) s), (runes, s))
      \<in> measure (\<lambda>(runes, s). length s)"
    by simp
qed

declare trimLeftRunes.simps [simp del]

text \<open>Trailing white space is found by reading the runes backwards from the end.\<close>

definition TrimSpace :: "string \<Rightarrow> string" where
  "TrimSpace s =
     rev (trimLeftRunes (map rev spaceRunes) (rev (trimLeftRunes spaceRunes s)))"

subsection \<open>strings.Contains\<close>

fun Contains :: "string \<Rightarrow> string \<Rightarrow> bool" where
  "Contains [] substr = (substr = [])"
| "Contains (c # cs) substr = (startsWith (c # cs) substr \<or> Contains cs substr)"

subsection \<open>strings.ToLower\<close>

text \<open>
  \<open>strings.ToLower\<close> has two paths. A string of ASCII bytes only has \<open>'A'..'Z'\<close> moved
  to \<open>'a'..'z'\<close> and every other byte kept. Any other string is mapped rune by rune through
  \<open>unicode.ToLower\<close>, whose case tables are not part of this repository: that mapping is
  the parameter \<open>mapUnicode\<close>, and every result below holds for each choice of it.
\<close>

definition isASCII :: "char \<Rightarrow> bool" where
  "isASCII c = ((of_char c :: nat) < 128)"

definition isUpper :: "char \<Rightarrow> bool" where
  "isUpper c = ((of_char (CHR ''A'') :: nat) \<le> of_char c \<and> (of_char c :: nat) \<le> of_char (CHR ''Z''))"

definition lowerASCII :: "char \<Rightarrow> char" where
  "lowerASCII c = (if isUpper c then char_of ((of_char c :: nat) + 32) else c)"

definition ToLower :: "(string \<Rightarrow> string) \<Rightarrow> string \<Rightarrow> string" where
  "ToLower mapUnicode s = (if list_all isASCII s then map lowerASCII s else mapUnicode s)"

subsection \<open>strconv.Atoi and the decimal rendering of an id\<close>

text \<open>
  \<open>strconv.Atoi\<close> accepts an optional sign followed by one or more decimal digits whose
  value fits the 64-bit \<open>int\<close>; every other string is an error (\<open>None\<close>: the handlers
  only test \<open>err != nil\<close>).
\<close>

definition isDigit :: "char \<Rightarrow> bool" where
  "isDigit c = ((of_char (CHR ''0'') :: nat) \<le> of_char c \<and> (of_char c :: nat) \<le> of_char (CHR ''9''))"

definition digitVal :: "char \<Rightarrow> nat" where
  "digitVal c = of_char c - of_char (CHR ''0'')"

definition decimal :: "string \<Rightarrow> nat" where
  "decimal ds = foldl (\<lambda>n c. n * 10 + digitVal c) 0 ds"

definition Atoi :: "string \<Rightarrow> go_int option" where
  "Atoi s =
     (let neg = (s \<noteq> [] \<and> hd s = CHR ''-'');
          ds = (if s \<noteq> [] \<and> (hd s = CHR ''-'' \<or> hd s = CHR ''+'') then tl s else s)
      in if ds = [] \<or> \<not> list_all isDigit ds then None
         else if neg then (if decimal ds \<le> 2 ^ 63 then Some (- word_of_nat (decimal ds)) else None)
         else (if decimal ds < 2 ^ 63 then Some (word_of_nat (decimal ds)) else None))"

text \<open>
  A client reads an id as the decimal numeral of the JSON response (\<open>"id":4\<close>) and puts
  the same numeral into the path of a later request.
\<close>

function formatNat :: "nat \<Rightarrow> string" where
  "formatNat n =
     (if n < 10 then [char_of (of_char (CHR ''0'') + n)]
      else formatNat (n div 10) @ [char_of (of_char (CHR ''0'') + n mod 10)])"
  by pat_completeness auto
termination
  by (relation "measure (\<lambda>n. n)") auto

declare formatNat.simps [simp del]

definition Itoa :: "go_int \<Rightarrow> string" where
  "Itoa i = (if sint i < 0 then CHR ''-'' # formatNat (nat (- sint i)) else formatNat (nat (sint i)))"

subsection \<open>encoding/json: the keys of a marshalled Response\<close>

text \<open>
  \<open>c.JSON\<close> marshals the \<open>Response\<close> with encoding/json. The struct tags (lines 23-27)
  mark every field but \<open>success\<close> as \<open>omitempty\<close>: such a field is left out when it is
  the zero number, the empty string or the nil interface. An interface that holds a value,
  a nil slice included, is not the nil interface, and its field is written
  (a nil slice as \<open>null\<close>).
\<close>

definition jsonKeys :: "Response \<Rightarrow> string list" where
  "jsonKeys r =
     [''success'']
     @ (if Data r = NilInterface then [] else [''data''])
     @ (if Message r = [] then [] else [''message''])
     @ (if Error r = [] then [] else [''error''])
     @ (if Code r = 0 then [] else [''code''])"

section \<open>The handlers (main.go, lines 51-253)\<close>

text \<open>
  A handler reads the request, answers with \<open>c.JSON(status, body)\<close> and may assign the
  two package variables: it is a function from the state and the request to the reply
  and the new state. A JSON body enters as the result of \<open>c.ShouldBindJSON\<close>: \<open>None\<close>
  when binding fails, the bound struct otherwise.
\<close>

type_synonym reply = "go_int \<times> Response"

definition failure :: "go_int \<Rightarrow> string \<Rightarrow> reply" where
  "failure status msg =
     (status, \<lparr>Success = False, Data = NilInterface, Message = [], Error = msg, Code = status\<rparr>)"

fun findFrom :: "nat \<Rightarrow> User list \<Rightarrow> go_int \<Rightarrow> (User \<times> nat) option" where
  "findFrom i [] uid = None"
| "findFrom i (u # us) uid = (if ID u = uid then Some (u, i) else findFrom (Suc i) us uid)"

definition findUserByID :: "store \<Rightarrow> go_int \<Rightarrow> (User \<times> nat) option" where
  "findUserByID s uid = findFrom 0 (users s) uid"

definition validateUser :: "User \<Rightarrow> string option" where
  "validateUser user =
     (if TrimSpace (Name user) = [] then Some ''name is required''
      else if TrimSpace (Email user) = [] then Some ''email is required''
      else if \<not> Contains (Email user) ''@'' then Some ''invalid email format''
      else if sint (Age user) \<le> 0 \<or> sint (Age user) > 150
        then Some ''age must be a positive integer (1-150)''
      else None)"

definition getAllUsers :: "store \<Rightarrow> reply \<times> store" where
  "getAllUsers s =
     ((StatusOK, \<lparr>Success = True, Data = UserSlice (Some (users s)), Message = [],
         Error = [], Code = StatusOK\<rparr>), s)"

definition getUserByID :: "store \<Rightarrow> string \<Rightarrow> reply \<times> store" where
  "getUserByID s idStr =
     (case Atoi idStr of
        None \<Rightarrow> (failure StatusBadRequest ''Invalid user ID format. Must be an Integer.'', s)
      | Some uid \<Rightarrow>
          (case findUserByID s uid of
             None \<Rightarrow> (failure StatusNotFound ''User not found.'', s)
           | Some (user, idx) \<Rightarrow>
               ((StatusOK, \<lparr>Success = True, Data = UserPointer user, Message = [],
                   Error = [], Code = StatusOK\<rparr>), s)))"

definition createUser :: "store \<Rightarrow> User option \<Rightarrow> reply \<times> store" where
  "createUser s body =
     (case body of
        None \<Rightarrow> (failure StatusBadRequest ''Invalid JSON format or missing fields.'', s)
      | Some newUser \<Rightarrow>
          (case validateUser newUser of
             Some err \<Rightarrow> (failure StatusBadRequest err, s)
           | None \<Rightarrow>
               ((StatusCreated,
                 \<lparr>Success = True, Data = UserValue (newUser\<lparr>ID := nextID s\<rparr>),
                  Message = ''User created successfully.'', Error = [],
                  Code = StatusCreated\<rparr>),
                s\<lparr>users := users s @ [newUser\<lparr>ID := nextID s\<rparr>],
                  nextID := nextID s + 1\<rparr>)))"

definition updateUser :: "store \<Rightarrow> string \<Rightarrow> User option \<Rightarrow> reply \<times> store" where
  "updateUser s idStr body =
     (case Atoi idStr of
        None \<Rightarrow> (failure StatusBadRequest ''Invalid ID format.'', s)
      | Some uid \<Rightarrow>
          (case findUserByID s uid of
             None \<Rightarrow> (failure StatusNotFound ''User not found.'', s)
           | Some (existingUser, idx) \<Rightarrow>
               (case body of
                  None \<Rightarrow> (failure StatusBadRequest ''Invalid JSON format.'', s)
                | Some updatedData \<Rightarrow>
                    (case validateUser updatedData of
                       Some err \<Rightarrow> (failure StatusBadRequest err, s)
                     | None \<Rightarrow>
                         ((StatusOK,
                           \<lparr>Success = True, Data = UserValue (updatedData\<lparr>ID := uid\<rparr>),
                            Message = ''User updated successfully.'', Error = [],
                            Code = StatusOK\<rparr>),
                          s\<lparr>users := (users s)[idx := updatedData\<lparr>ID := uid\<rparr>]\<rparr>)))))"

definition deleteUser :: "store \<Rightarrow> string \<Rightarrow> reply \<times> store" where
  "deleteUser s idStr =
     (case Atoi idStr of
        None \<Rightarrow> (failure StatusBadRequest ''Invalid ID format.'', s)
      | Some uid \<Rightarrow>
          (case findUserByID s uid of
             None \<Rightarrow> (failure StatusNotFound ''User not found.'', s)
           | Some (user, idx) \<Rightarrow>
               ((StatusOK,
                 \<lparr>Success = True, Data = NilInterface,
                  Message = ''User deleted successfully.'', Error = [], Code = StatusOK\<rparr>),
                s\<lparr>users := take idx (users s) @ drop (Suc idx) (users s)\<rparr>)))"

text \<open>Go's \<open>append\<close> on a slice that may be nil: the result is never nil.\<close>

fun appendUser :: "User list option \<Rightarrow> User \<Rightarrow> User list option" where
  "appendUser None u = Some [u]"
| "appendUser (Some us) u = Some (us @ [u])"

definition searchUsers :: "(string \<Rightarrow> string) \<Rightarrow> store \<Rightarrow> string \<Rightarrow> reply \<times> store" where
  "searchUsers mapUnicode s searchName =
     (if searchName = []
      then (failure StatusBadRequest ''Missing 'name' query parameter for search.'', s)
      else
        let searchNameLower = ToLower mapUnicode searchName;
            matchingUsers =
              foldl (\<lambda>acc user.
                       if Contains (ToLower mapUnicode (Name user)) searchNameLower
                       then appendUser acc user else acc)
                    None (users s)
        in ((StatusOK, \<lparr>Success = True, Data = UserSlice matchingUsers, Message = [],
               Error = [], Code = StatusOK\<rparr>), s))"

section \<open>Runs of the server and notions of the specification\<close>

text \<open>
  The three requests that assign the package variables. A run handles a list of them in
  order, each on the state its predecessor left.
\<close>

datatype operation =
    Create "User option"
  | Update string "User option"
  | Delete string

fun step :: "store \<Rightarrow> operation \<Rightarrow> store" where
  "step s (Create body) = snd (createUser s body)"
| "step s (Update idStr body) = snd (updateUser s idStr body)"
| "step s (Delete idStr) = snd (deleteUser s idStr)"

definition run :: "operation list \<Rightarrow> store \<Rightarrow> store" where
  "run ops s = foldl step s ops"

fun creations :: "operation list \<Rightarrow> nat" where
  "creations [] = 0"
| "creations (Create body # ops) = Suc (creations ops)"
| "creations (Update idStr body # ops) = creations ops"
| "creations (Delete idStr # ops) = creations ops"

text \<open>The id a client reads in the reply to a successful create.\<close>

definition createdID :: "reply \<Rightarrow> go_int option" where
  "createdID r =
     (if fst r = StatusCreated
      then (case Data (snd r) of UserValue u \<Rightarrow> Some (ID u) | _ \<Rightarrow> None)
      else None)"

text \<open>The ids the creates of a run hand out, in the order of the run.\<close>

fun assignedIDs :: "store \<Rightarrow> operation list \<Rightarrow> go_int list" where
  "assignedIDs s [] = []"
| "assignedIDs s (Create body # ops) =
     (case createdID (fst (createUser s body)) of None \<Rightarrow> [] | Some i \<Rightarrow> [i])
     @ assignedIDs (step s (Create body)) ops"
| "assignedIDs s (Update idStr body # ops) = assignedIDs (step s (Update idStr body)) ops"
| "assignedIDs s (Delete idStr # ops) = assignedIDs (step s (Delete idStr)) ops"

text \<open>Sample payloads: a valid one, and two with a blank field.\<close>

definition visitor :: User where
  "visitor = \<lparr>ID = 0, Name = ''Eve'', Email = ''eve@example.com'', Age = 41\<rparr>"

definition blankName :: User where
  "blankName = \<lparr>ID = 0, Name = '' '', Email = ''eve@example.com'', Age = 41\<rparr>"

definition blankEmail :: User where
  "blankEmail = \<lparr>ID = 0, Name = ''Eve'', Email = [CHR 0x09, CHR 0x20], Age = 41\<rparr>"

text \<open>Two short runs.\<close>

definition sampleRun :: "operation list" where
  "sampleRun = [Create (Some visitor), Delete ''2'', Update ''1'' (Some visitor)]"

definition twoCreates :: "operation list" where
  "twoCreates = [Create (Some visitor), Delete ''4'', Create (Some (visitor\<lparr>ID := 1\<rparr>))]"

text \<open>
  A run that creates a user and deletes it again, \<open>k\<close> times over, starting when the
  counter stands at \<open>n\<close>: the list keeps its length while the counter advances.
\<close>

primrec churn :: "nat \<Rightarrow> go_int \<Rightarrow> operation list" where
  "churn 0 n = []"
| "churn (Suc k) n = Create (Some visitor) # Delete (Itoa n) # churn k (n + 1)"

text \<open>The users a reply lists in its data field.\<close>

fun sliceElems :: "User list option \<Rightarrow> User list" where
  "sliceElems None = []"
| "sliceElems (Some us) = us"

definition resultUsers :: "reply \<Rightarrow> User list" where
  "resultUsers r = (case Data (snd r) of UserSlice sl \<Rightarrow> sliceElems sl | _ \<Rightarrow> [])"

text \<open>
  What the search loop compares: the image of the name under \<open>strings.ToLower\<close>
  contains the image of the query as a substring.
\<close>

definition containsIgnoreCase :: "(string \<Rightarrow> string) \<Rightarrow> string \<Rightarrow> string \<Rightarrow> bool" where
  "containsIgnoreCase mapUnicode name query =
     (\<exists>pre suf. ToLower mapUnicode name = pre @ ToLower mapUnicode query @ suf)"




text \<open>
  The specification's words for a blank field: a string that consists only of
  white-space characters (the empty string is one).
\<close>

inductive whiteSpaceOnly :: "string \<Rightarrow> bool" where
  empty: "whiteSpaceOnly []"
| rune: "r \<in> set spaceRunes \<Longrightarrow> whiteSpaceOnly s \<Longrightarrow> whiteSpaceOnly (r @ s)"

text \<open>
  The invariant of the store while the counter has not wrapped around: the ids are
  pairwise distinct and each is below the counter (both read unsigned).
\<close>

definition wellFormed :: "store \<Rightarrow> bool" where
  "wellFormed s =
     (distinct (map ID (users s))
      \<and> list_all (\<lambda>u. unat (ID u) < unat (nextID s)) (users s))"

section \<open>Auxiliary lemmas\<close>

subsection \<open>Linear lookup\<close>

lemma findFrom_None: "findFrom i us uid = None \<longleftrightarrow> uid \<notin> ID ` set us"
  by (induction us arbitrary: i) auto

lemma findFrom_Some:
  "findFrom i us uid = Some (u, j) \<Longrightarrow>
     i \<le> j \<and> j - i < length us \<and> us ! (j - i) = u \<and> ID u = uid \<and> uid \<notin> ID ` set (take (j - i) us)"
proof (induction us arbitrary: i)
  case Nil
  then show ?case by simp
next
  case (Cons a us)
  show ?case
  proof (cases "ID a = uid")
    case True
    with Cons.prems show ?thesis by simp
  next
    case False
    with Cons.prems have f: "findFrom (Suc i) us uid = Some (u, j)" by simp
    from Cons.IH [OF f] have ih: "Suc i \<le> j" "j - Suc i < length us" "us ! (j - Suc i) = u"
      "ID u = uid" "uid \<notin> ID ` set (take (j - Suc i) us)" by simp_all
    from ih(1) have e: "j - i = Suc (j - Suc i)" by simp
    show ?thesis using ih False unfolding e by auto
  qed
qed

lemma findUserByID_None: "findUserByID s uid = None \<longleftrightarrow> uid \<notin> ID ` set (users s)"
  by (simp add: findUserByID_def findFrom_None)

lemma findUserByID_Some:
  "findUserByID s uid = Some (u, idx) \<Longrightarrow>
     idx < length (users s) \<and> users s ! idx = u \<and> ID u = uid \<and> uid \<notin> ID ` set (take idx (users s))"
  using findFrom_Some [of 0 "users s" uid u idx] by (simp add: findUserByID_def)

lemma status_distinct [simp]:
  "StatusOK \<noteq> StatusNotFound" "StatusOK \<noteq> StatusBadRequest" "StatusCreated \<noteq> StatusNotFound"
  "StatusCreated \<noteq> StatusBadRequest" "StatusBadRequest \<noteq> StatusNotFound"
  "StatusNotFound \<noteq> StatusBadRequest" "StatusNotFound \<noteq> StatusOK" "StatusBadRequest \<noteq> StatusOK"
  "StatusOK \<noteq> StatusCreated" "StatusCreated \<noteq> StatusOK"
  by (simp_all add: StatusOK_def StatusCreated_def StatusBadRequest_def StatusNotFound_def)

lemma fst_failure [simp]: "fst (failure st msg) = st"
  by (simp add: failure_def)

subsection \<open>Decimal numerals\<close>

lemma digit_char:
  assumes "d < 10"
  shows "isDigit (char_of (of_char (CHR ''0'') + d))"
    and "digitVal (char_of (of_char (CHR ''0'') + d)) = d"
    and "char_of (of_char (CHR ''0'') + d) \<noteq> CHR ''-''"
    and "char_of (of_char (CHR ''0'') + d) \<noteq> CHR ''+''"
proof -
  have v: "(of_char (char_of (of_char (CHR ''0'') + d)) :: nat) = 48 + d"
    using assms by (simp add: of_char_of)
  show "isDigit (char_of (of_char (CHR ''0'') + d))"
    unfolding isDigit_def v using assms by simp
  show "digitVal (char_of (of_char (CHR ''0'') + d)) = d"
    unfolding digitVal_def v by simp
  have "(of_char (char_of (of_char (CHR ''0'') + d)) :: nat) \<noteq> of_char (CHR ''-'')"
    unfolding v by simp
  then show "char_of (of_char (CHR ''0'') + d) \<noteq> CHR ''-''" by metis
  have "(of_char (char_of (of_char (CHR ''0'') + d)) :: nat) \<noteq> of_char (CHR ''+'')"
    unfolding v by simp
  then show "char_of (of_char (CHR ''0'') + d) \<noteq> CHR ''+''" by metis
qed

lemma decimal_snoc: "decimal (ds @ [c]) = decimal ds * 10 + digitVal c"
  by (simp add: decimal_def)

lemma formatNat_props:
  "formatNat n \<noteq> [] \<and> list_all isDigit (formatNat n) \<and> decimal (formatNat n) = n
     \<and> hd (formatNat n) \<noteq> CHR ''-'' \<and> hd (formatNat n) \<noteq> CHR ''+''"
proof (induction n rule: formatNat.induct)
  case (1 n)
  show ?case
  proof (cases "n < 10")
    case True
    then have "formatNat n = [char_of (of_char (CHR ''0'') + n)]"
      by (subst formatNat.simps) simp
    with digit_char [OF True] show ?thesis by (simp add: decimal_def)
  next
    case False
    then have e: "formatNat n = formatNat (n div 10) @ [char_of (of_char (CHR ''0'') + n mod 10)]"
      by (subst formatNat.simps) simp
    have m: "n mod 10 < 10" by simp
    from 1 False have ih: "formatNat (n div 10) \<noteq> []" "list_all isDigit (formatNat (n div 10))"
      "decimal (formatNat (n div 10)) = n div 10"
      "hd (formatNat (n div 10)) \<noteq> CHR ''-''" "hd (formatNat (n div 10)) \<noteq> CHR ''+''"
      by simp_all
    show ?thesis
      unfolding e using ih digit_char(1,2) [OF m]
      by (simp add: decimal_snoc)
  qed
qed

lemma Atoi_Itoa: "Atoi (Itoa i) = Some i"
proof (cases "sint i < 0")
  case True
  define n where "n = nat (- sint i)"
  have b: "n \<le> 2 ^ 63"
    using sint_ge [of i] by (simp add: n_def)
  have w: "- word_of_nat n = i"
    using True by (simp add: n_def)
  have s: "Itoa i = CHR ''-'' # formatNat n"
    using True by (simp add: Itoa_def n_def)
  show ?thesis
    unfolding s Atoi_def using formatNat_props [of n] b w by (simp add: Let_def)
next
  case False
  define n where "n = nat (sint i)"
  have b: "n < 2 ^ 63"
    using sint_lt [of i] False by (simp add: n_def)
  have w: "word_of_nat n = i"
    using False by (simp add: n_def)
  have s: "Itoa i = formatNat n"
    using False by (simp add: Itoa_def n_def)
  from formatNat_props [of n] have p: "formatNat n \<noteq> []" "list_all isDigit (formatNat n)"
    "decimal (formatNat n) = n" "hd (formatNat n) \<noteq> CHR ''-''" "hd (formatNat n) \<noteq> CHR ''+''"
    by simp_all
  show ?thesis
    unfolding s Atoi_def using p b w by (simp add: Let_def)
qed

subsection \<open>Substrings\<close>

lemma startsWith_iff: "startsWith s p \<longleftrightarrow> (\<exists>suf. s = p @ suf)"
  unfolding startsWith_def
  by (metis append_eq_conv_conj append_take_drop_id)

lemma Contains_iff: "Contains s substr \<longleftrightarrow> (\<exists>pre suf. s = pre @ substr @ suf)"
proof (induction s)
  case Nil
  then show ?case by auto
next
  case (Cons c cs)
  show ?case
  proof
    assume "Contains (c # cs) substr"
    then consider "startsWith (c # cs) substr" | "Contains cs substr" by auto
    then show "\<exists>pre suf. c # cs = pre @ substr @ suf"
    proof cases
      case 1
      then obtain suf where "c # cs = substr @ suf" by (auto simp: startsWith_iff)
      then have "c # cs = [] @ substr @ suf" by simp
      then show ?thesis by blast
    next
      case 2
      with Cons.IH obtain pre suf where "cs = pre @ substr @ suf" by auto
      then have "c # cs = (c # pre) @ substr @ suf" by simp
      then show ?thesis by blast
    qed
  next
    assume "\<exists>pre suf. c # cs = pre @ substr @ suf"
    then obtain pre suf where e: "c # cs = pre @ substr @ suf" by auto
    show "Contains (c # cs) substr"
    proof (cases pre)
      case Nil
      with e have "startsWith (c # cs) substr" by (auto simp: startsWith_iff)
      then show ?thesis by simp
    next
      case (Cons a pre')
      with e have "cs = pre' @ substr @ suf" by simp
      with Cons.IH have "Contains cs substr" by blast
      then show ?thesis by simp
    qed
  qed
qed

subsection \<open>White space\<close>

lemma spaceWidth_rune:
  assumes "r \<in> set spaceRunes"
  shows "spaceWidth spaceRunes (r @ t) = length r"
  using assms
  by (simp add: spaceRunes_def) (elim disjE; simp add: spaceRunes_def spaceWidth_def startsWith_def)

lemma spaceRunes_nonempty: "r \<in> set spaceRunes \<Longrightarrow> r \<noteq> []"
  by (auto simp: spaceRunes_def)

lemma trimLeft_rune:
  assumes "r \<in> set spaceRunes"
  shows "trimLeftRunes spaceRunes (r @ t) = trimLeftRunes spaceRunes t"
  using spaceWidth_rune [OF assms, of t] spaceRunes_nonempty [OF assms]
  by (subst trimLeftRunes.simps) simp

lemma spaceWidth_Nil: "\<forall>r \<in> set runes. r \<noteq> [] \<Longrightarrow> spaceWidth runes [] = 0"
  by (induction runes) (auto simp: spaceWidth_def startsWith_def)

lemma trimLeft_Nil: "\<forall>r \<in> set runes. r \<noteq> [] \<Longrightarrow> trimLeftRunes runes [] = []"
  by (subst trimLeftRunes.simps) (simp add: spaceWidth_Nil)

lemma trimLeft_whiteSpaceOnly:
  "whiteSpaceOnly s \<Longrightarrow> trimLeftRunes spaceRunes s = []"
proof (induction rule: whiteSpaceOnly.induct)
  case empty
  show ?case by (rule trimLeft_Nil) (simp add: spaceRunes_nonempty)
next
  case (rune r s)
  then show ?case by (simp add: trimLeft_rune)
qed

text \<open>What trimming from the left returns has no rune of the list in front.\<close>

lemma trimLeft_fixed: "spaceWidth runes (trimLeftRunes runes s) = 0"
proof (induction runes s rule: trimLeftRunes.induct)
  case (1 runes s)
  show ?case
  proof (cases "spaceWidth runes s = 0")
    case True
    then show ?thesis by (subst trimLeftRunes.simps) simp
  next
    case False
    with 1 show ?thesis by (subst trimLeftRunes.simps) simp
  qed
qed

text \<open>A string trimmed from the left to nothing is a sequence of runes of the list.\<close>

lemma trimLeft_empty_concat:
  "trimLeftRunes runes s = [] \<Longrightarrow> \<exists>rs. set rs \<subseteq> set runes \<and> s = concat rs"
proof (induction runes s rule: trimLeftRunes.induct)
  case (1 runes s)
  show ?case
  proof (cases "spaceWidth runes s = 0")
    case True
    with "1.prems" have "s = []" by (subst (asm) trimLeftRunes.simps) simp
    then have "set [] \<subseteq> set runes \<and> s = concat []" by simp
    then show ?thesis by blast
  next
    case False
    then obtain r where r: "find (startsWith s) runes = Some r"
      by (auto simp: spaceWidth_def split: option.splits)
    then have w: "spaceWidth runes s = length r" by (simp add: spaceWidth_def)
    from r have m: "r \<in> set runes" "startsWith s r"
      by (auto simp: find_Some_iff)
    from m(2) have s: "s = r @ drop (length r) s"
      by (metis append_take_drop_id startsWith_def)
    from "1.prems" False have "trimLeftRunes runes (drop (spaceWidth runes s) s) = []"
      by (subst (asm) trimLeftRunes.simps) simp
    from "1.IH" [OF False this] obtain rs where
      rs: "set rs \<subseteq> set runes" "drop (spaceWidth runes s) s = concat rs" by blast
    from s rs(2) w have "s = concat (r # rs)" by simp
    moreover from m(1) rs(1) have "set (r # rs) \<subseteq> set runes" by simp
    ultimately show ?thesis by blast
  qed
qed

lemma concat_whiteSpaceOnly: "set rs \<subseteq> set spaceRunes \<Longrightarrow> whiteSpaceOnly (concat rs)"
  by (induction rs) (auto intro: whiteSpaceOnly.intros)

lemma whiteSpaceOnly_concat:
  "whiteSpaceOnly s \<Longrightarrow> \<exists>rs. set rs \<subseteq> set spaceRunes \<and> s = concat rs"
proof (induction rule: whiteSpaceOnly.induct)
  case empty
  have "set [] \<subseteq> set spaceRunes \<and> [] = concat ([] :: string list)" by simp
  then show ?case by blast
next
  case (rune r s)
  then obtain rs where "set rs \<subseteq> set spaceRunes" "s = concat rs" by blast
  with rune.hyps(1) have "set (r # rs) \<subseteq> set spaceRunes \<and> r @ s = concat (r # rs)" by simp
  then show ?case by blast
qed

text \<open>A non-empty sequence of reversed runes, read backwards, starts with a rune.\<close>

lemma rev_concat_starts:
  assumes "set rs \<subseteq> set (map rev runes)" "\<forall>r \<in> set runes. r \<noteq> []" "concat rs \<noteq> []"
  shows "\<exists>r \<in> set runes. startsWith (rev (concat rs)) r"
  using assms
proof (induction rs rule: rev_induct)
  case Nil
  then show ?case by simp
next
  case (snoc q rs)
  from snoc.prems(1) obtain r where r: "r \<in> set runes" "q = rev r" by auto
  have "rev (concat (rs @ [q])) = r @ rev (concat rs)" using r by simp
  then have "startsWith (rev (concat (rs @ [q]))) r" by (simp add: startsWith_def)
  with r(1) show ?case by blast
qed

lemma find_startsWith_Some:
  "r \<in> set runes \<Longrightarrow> startsWith s r \<Longrightarrow> find (startsWith s) runes \<noteq> None"
  by (auto simp: find_None_iff)

lemma TrimSpace_empty_iff: "TrimSpace s = [] \<longleftrightarrow> whiteSpaceOnly s"
proof
  assume "whiteSpaceOnly s"
  then have "trimLeftRunes spaceRunes s = []" by (rule trimLeft_whiteSpaceOnly)
  moreover have "trimLeftRunes (map rev spaceRunes) [] = []"
    by (rule trimLeft_Nil) (auto simp: spaceRunes_nonempty)
  ultimately show "TrimSpace s = []" by (simp add: TrimSpace_def)
next
  assume t: "TrimSpace s = []"
  define l where "l = trimLeftRunes spaceRunes s"
  from t have "trimLeftRunes (map rev spaceRunes) (rev l) = []"
    by (simp add: TrimSpace_def l_def)
  then obtain rs where rs: "set rs \<subseteq> set (map rev spaceRunes)" "rev l = concat rs"
    using trimLeft_empty_concat by blast
  have "l = []"
  proof (rule ccontr)
    assume "l \<noteq> []"
    with rs(2) have "concat rs \<noteq> []" by (metis rev_is_Nil_conv)
    with rs(1) obtain r where r: "r \<in> set spaceRunes" "startsWith (rev (concat rs)) r"
      using rev_concat_starts [of rs spaceRunes] spaceRunes_nonempty by blast
    from rs(2) have "rev (concat rs) = l" by (metis rev_rev_ident)
    with r have "find (startsWith l) spaceRunes \<noteq> None"
      using find_startsWith_Some by metis
    then have "spaceWidth spaceRunes l \<noteq> 0"
      using spaceRunes_nonempty
      by (auto simp: spaceWidth_def find_Some_iff split: option.splits)
    then show False by (simp add: l_def trimLeft_fixed)
  qed
  then have "trimLeftRunes spaceRunes s = []" by (simp add: l_def)
  then obtain qs where "set qs \<subseteq> set spaceRunes" "s = concat qs"
    using trimLeft_empty_concat by blast
  then show "whiteSpaceOnly s" by (simp add: concat_whiteSpaceOnly)
qed

lemma Contains_char: "Contains s [c] \<longleftrightarrow> c \<in> set s"
  by (induction s) (auto simp: startsWith_def)

lemma whiteSpaceOnly_no_at: "whiteSpaceOnly s \<Longrightarrow> CHR ''@'' \<notin> set s"
proof (induction rule: whiteSpaceOnly.induct)
  case empty
  show ?case by simp
next
  case (rune r s)
  from rune.hyps(1) have "CHR ''@'' \<notin> set r" by (auto simp: spaceRunes_def)
  with rune.IH show ?case by simp
qed

subsection \<open>The seeded store and the sample payloads\<close>

lemma initial_simps [simp]:
  "users initial = seedUsers" "nextID initial = 4"
  by (simp_all add: initial_def)

lemma Atoi_digit_examples:
  "Atoi ''1'' = Some 1" "Atoi ''2'' = Some 2" "Atoi ''4'' = Some 4" "Atoi ''9'' = Some 9"
  by (simp_all add: Atoi_def isDigit_def decimal_def digitVal_def)

lemma filter_take_drop_distinct:
  assumes "distinct (map f xs)" "i < length xs"
  shows "filter (\<lambda>x. f x \<noteq> f (xs ! i)) xs = take i xs @ drop (Suc i) xs"
proof -
  have xs: "xs = take i xs @ xs ! i # drop (Suc i) xs"
    using assms(2) by (simp add: id_take_nth_drop)
  from assms(1) have d: "distinct (map f (take i xs @ xs ! i # drop (Suc i) xs))"
    using xs by simp
  then have a: "\<forall>x \<in> set (take i xs). f x \<noteq> f (xs ! i)"
    and b: "\<forall>x \<in> set (drop (Suc i) xs). f x \<noteq> f (xs ! i)"
    by (auto simp: image_iff)
  have "filter (\<lambda>x. f x \<noteq> f (xs ! i)) (take i xs @ xs ! i # drop (Suc i) xs)
      = take i xs @ drop (Suc i) xs"
    using a b by simp
  with xs show ?thesis by simp
qed

lemma seed_lookup:
  "findUserByID initial 1 = Some (seedUsers ! 0, 0)"
  "findUserByID initial 2 = Some (seedUsers ! 1, 1)"
  "findUserByID initial 3 = Some (seedUsers ! 2, 2)"
  by (simp_all add: findUserByID_def seedUsers_def)

lemma validate_visitor: "validateUser visitor = None"
  by (simp add: validateUser_def visitor_def TrimSpace_def trimLeftRunes.simps spaceWidth_def
      spaceRunes_def startsWith_def)

subsection \<open>The search loop\<close>


lemma search_loop_nil:
  "foldl (\<lambda>acc user. if P user then appendUser acc user else acc) acc us = None
     \<longleftrightarrow> acc = None \<and> filter P us = []"
proof (induction us arbitrary: acc)
  case Nil
  show ?case by simp
next
  case (Cons u us)
  have a: "appendUser acc u \<noteq> None" by (cases acc) simp_all
  show ?case using Cons.IH a by simp
qed

lemma Contains_lower:
  "Contains (ToLower m name) (ToLower m query) = containsIgnoreCase m name query"
  by (simp add: Contains_iff containsIgnoreCase_def)










lemma lower_examples:
  "ToLower m ''John Doe'' = ''john doe''" "ToLower m ''Jane Smith'' = ''jane smith''"
  "ToLower m ''Bob Wilson'' = ''bob wilson''" "ToLower m ''JO'' = ''jo''"
  "ToLower m ''zzz'' = ''zzz''"
  by (simp_all add: ToLower_def isASCII_def lowerASCII_def isUpper_def char_of_def bit_Suc_0_iff)

subsection \<open>Validation\<close>

lemma validateUser_None_iff:
  "validateUser u = None \<longleftrightarrow>
     \<not> whiteSpaceOnly (Name u) \<and> CHR ''@'' \<in> set (Email u)
     \<and> 1 \<le> sint (Age u) \<and> sint (Age u) \<le> 150"
proof -
  have e: "CHR ''@'' \<in> set (Email u) \<Longrightarrow> \<not> whiteSpaceOnly (Email u)"
    using whiteSpaceOnly_no_at by blast
  show ?thesis
    using e by (auto simp: validateUser_def TrimSpace_empty_iff Contains_char)
qed

lemma createUser_status:
  "fst (fst (createUser s (Some u))) = (if validateUser u = None then StatusCreated else StatusBadRequest)"
  by (simp add: createUser_def split: option.splits)

lemma updateUser_status:
  "Atoi idStr = Some uid \<Longrightarrow> uid \<in> ID ` set (users s) \<Longrightarrow>
   fst (fst (updateUser s idStr (Some u))) = (if validateUser u = None then StatusOK else StatusBadRequest)"
  using findUserByID_None [of s uid]
  by (auto simp: updateUser_def split: option.splits)

lemma validate_blankName: "validateUser blankName = Some ''name is required''"
  by (simp add: validateUser_def blankName_def TrimSpace_def trimLeftRunes.simps spaceWidth_def
      spaceRunes_def startsWith_def)

subsection \<open>The counter and the steps of a run\<close>

lemma unat_succ:
  fixes n :: go_int
  assumes "unat n + 1 < 2 ^ 64"
  shows "unat (n + 1) = unat n + 1"
  using assms unat_add_lem [of n 1] by simp

lemma sint_succ:
  fixes n :: go_int
  assumes "sint n + 1 < 2 ^ 63"
  shows "sint (n + 1) = sint n + 1"
proof -
  have "sint (n + 1) = signed_take_bit 63 (sint n + sint (1 :: go_int))"
    by (simp add: sint_word_ariths)
  also have "\<dots> = signed_take_bit 63 (sint n + 1)" by simp
  also have "\<dots> = sint n + 1"
    using assms sint_ge [of n] by (simp add: signed_take_bit_int_eq_self)
  finally show ?thesis .
qed

lemma validateUser_ID [simp]: "validateUser (u\<lparr>ID := i\<rparr>) = validateUser u"
  by (simp add: validateUser_def)

lemma createUser_valid:
  "validateUser u = None \<Longrightarrow>
   createUser s (Some u) =
     ((StatusCreated,
       \<lparr>Success = True, Data = UserValue (u\<lparr>ID := nextID s\<rparr>),
        Message = ''User created successfully.'', Error = [], Code = StatusCreated\<rparr>),
      s\<lparr>users := users s @ [u\<lparr>ID := nextID s\<rparr>], nextID := nextID s + 1\<rparr>)"
  by (simp add: createUser_def)

lemma createUser_cases:
  "snd (createUser s body) = s \<and> createdID (fst (createUser s body)) = None
   \<or> (\<exists>u. body = Some u \<and> validateUser u = None
          \<and> createdID (fst (createUser s body)) = Some (nextID s)
          \<and> snd (createUser s body)
              = s\<lparr>users := users s @ [u\<lparr>ID := nextID s\<rparr>], nextID := nextID s + 1\<rparr>)"
proof (cases body)
  case None
  then show ?thesis by (simp add: createUser_def createdID_def failure_def)
next
  case (Some u)
  show ?thesis
  proof (cases "validateUser u")
    case None
    with Some show ?thesis by (simp add: createUser_valid createdID_def)
  next
    case (Some err)
    with \<open>body = Some u\<close> show ?thesis by (simp add: createUser_def createdID_def failure_def)
  qed
qed

lemma updateUser_cases:
  "snd (updateUser s idStr body) = s
   \<or> (\<exists>uid idx u. idx < length (users s) \<and> ID (users s ! idx) = uid
          \<and> snd (updateUser s idStr body) = s\<lparr>users := (users s)[idx := u\<lparr>ID := uid\<rparr>]\<rparr>)"
proof (cases "fst (fst (updateUser s idStr body)) = StatusOK")
  case True
  then obtain uid where a: "Atoi idStr = Some uid"
    by (cases "Atoi idStr") (auto simp: updateUser_def)
  from True a obtain e idx where f: "findUserByID s uid = Some (e, idx)"
    by (cases "findUserByID s uid") (auto simp: updateUser_def)
  from True a f obtain u where b: "body = Some u"
    by (cases body) (auto simp: updateUser_def)
  from True a f b have v: "validateUser u = None"
    by (cases "validateUser u") (auto simp: updateUser_def)
  from findUserByID_Some [OF f] have p: "idx < length (users s)" "ID (users s ! idx) = uid"
    by auto
  have "snd (updateUser s idStr body) = s\<lparr>users := (users s)[idx := u\<lparr>ID := uid\<rparr>]\<rparr>"
    by (simp add: updateUser_def a f b v)
  with p show ?thesis by blast
next
  case False
  then have "snd (updateUser s idStr body) = s"
    by (auto simp: updateUser_def split: option.splits prod.splits)
  then show ?thesis by simp
qed

lemma deleteUser_cases:
  "snd (deleteUser s idStr) = s
   \<or> (\<exists>idx. idx < length (users s)
          \<and> snd (deleteUser s idStr) = s\<lparr>users := take idx (users s) @ drop (Suc idx) (users s)\<rparr>)"
proof (cases "Atoi idStr")
  case None
  then show ?thesis by (simp add: deleteUser_def)
next
  case (Some uid)
  show ?thesis
  proof (cases "findUserByID s uid")
    case None
    with Some show ?thesis by (simp add: deleteUser_def)
  next
    case (Some r)
    obtain e idx where r: "r = (e, idx)" by (cases r)
    with Some findUserByID_Some [of s uid e idx] have "idx < length (users s)" by simp
    moreover have "snd (deleteUser s idStr)
        = s\<lparr>users := take idx (users s) @ drop (Suc idx) (users s)\<rparr>"
      using \<open>Atoi idStr = Some uid\<close> Some r by (simp add: deleteUser_def)
    ultimately show ?thesis by blast
  qed
qed

lemma update_keeps_ids:
  "map ID (users (snd (updateUser s idStr body))) = map ID (users s)
   \<and> nextID (snd (updateUser s idStr body)) = nextID s"
  using updateUser_cases [of s idStr body]
  by (auto simp: map_update list_update_same_conv)

lemma distinct_take_drop:
  assumes "distinct xs"
  shows "distinct (take i xs @ drop (Suc i) xs)"
proof -
  from assms have "distinct (take i xs @ drop i xs)" by simp
  then have d: "distinct (take i xs)" "distinct (drop i xs)"
    "set (take i xs) \<inter> set (drop i xs) = {}"
    by (simp_all only: distinct_append) 
  have s: "set (drop (Suc i) xs) \<subseteq> set (drop i xs)"
    by (rule set_drop_subset_set_drop) simp
  have "distinct (drop (Suc i) xs)" using assms by simp
  with d s show ?thesis by auto
qed

lemma delete_sublist:
  "nextID (snd (deleteUser s idStr)) = nextID s
   \<and> set (users (snd (deleteUser s idStr))) \<subseteq> set (users s)
   \<and> (distinct (map ID (users s)) \<longrightarrow> distinct (map ID (users (snd (deleteUser s idStr)))))"
proof -
  from deleteUser_cases [of s idStr] show ?thesis
  proof
    assume "snd (deleteUser s idStr) = s"
    then show ?thesis by simp
  next
    assume "\<exists>idx. idx < length (users s)
          \<and> snd (deleteUser s idStr) = s\<lparr>users := take idx (users s) @ drop (Suc idx) (users s)\<rparr>"
    then obtain idx where r: "snd (deleteUser s idStr)
        = s\<lparr>users := take idx (users s) @ drop (Suc idx) (users s)\<rparr>" by blast
    have "set (take idx (users s) @ drop (Suc idx) (users s)) \<subseteq> set (users s)"
      using set_take_subset [of idx "users s"] set_drop_subset [of "Suc idx" "users s"] by auto
    moreover have "distinct (map ID (users s)) \<longrightarrow>
        distinct (map ID (take idx (users s) @ drop (Suc idx) (users s)))"
      using distinct_take_drop [of "map ID (users s)" idx] by (simp add: take_map drop_map)
    ultimately show ?thesis unfolding r by simp
  qed
qed

subsection \<open>Runs and the invariant\<close>

lemma run_Nil [simp]: "run [] s = s"
  by (simp add: run_def)

lemma run_Cons [simp]: "run (x # ops) s = run ops (step s x)"
  by (simp add: run_def)

lemma run_append: "run (xs @ ys) s = run ys (run xs s)"
  by (simp add: run_def)

lemma wellFormed_initial: "wellFormed initial"
  by (simp add: wellFormed_def seedUsers_def)

lemma wellFormed_fresh: "wellFormed s \<Longrightarrow> nextID s \<notin> ID ` set (users s)"
  by (auto simp: wellFormed_def list_all_iff)

lemma wellFormed_ids:
  "wellFormed s \<longleftrightarrow>
     distinct (map ID (users s)) \<and> (\<forall>i \<in> set (map ID (users s)). unat i < unat (nextID s))"
  by (auto simp: wellFormed_def list_all_iff)

text \<open>An update or a delete keeps the invariant and the counter.\<close>

lemma wellFormed_update:
  assumes "wellFormed s"
  shows "wellFormed (snd (updateUser s idStr body))"
    and "nextID (snd (updateUser s idStr body)) = nextID s"
proof -
  from update_keeps_ids [of s idStr body]
  have e: "map ID (users (snd (updateUser s idStr body))) = map ID (users s)"
    and n: "nextID (snd (updateUser s idStr body)) = nextID s" by simp_all
  from assms show "wellFormed (snd (updateUser s idStr body))"
    unfolding wellFormed_ids e n .
  show "nextID (snd (updateUser s idStr body)) = nextID s" by (rule n)
qed

lemma wellFormed_delete:
  assumes "wellFormed s"
  shows "wellFormed (snd (deleteUser s idStr))"
    and "nextID (snd (deleteUser s idStr)) = nextID s"
proof -
  from delete_sublist [of s idStr]
  have n: "nextID (snd (deleteUser s idStr)) = nextID s"
    and sub: "set (users (snd (deleteUser s idStr))) \<subseteq> set (users s)"
    and d: "distinct (map ID (users s)) \<longrightarrow> distinct (map ID (users (snd (deleteUser s idStr))))"
    by simp_all
  from assms have "distinct (map ID (users s))"
    and b: "\<forall>u \<in> set (users s). unat (ID u) < unat (nextID s)"
    by (simp_all add: wellFormed_def list_all_iff)
  with d have d': "distinct (map ID (users (snd (deleteUser s idStr))))" by simp
  from b sub have "\<forall>u \<in> set (users (snd (deleteUser s idStr))). unat (ID u) < unat (nextID s)"
    by blast
  with d' show "wellFormed (snd (deleteUser s idStr))"
    by (simp add: wellFormed_def list_all_iff n)
  show "nextID (snd (deleteUser s idStr)) = nextID s" by (rule n)
qed

text \<open>A successful create keeps the invariant while the counter does not wrap.\<close>

lemma wellFormed_create:
  assumes "wellFormed s" "unat (nextID s) + 1 < 2 ^ 64"
  shows "wellFormed (snd (createUser s body))"
    and "unat (nextID (snd (createUser s body))) \<le> unat (nextID s) + 1"
proof -
  have "wellFormed (snd (createUser s body))
      \<and> unat (nextID (snd (createUser s body))) \<le> unat (nextID s) + 1"
    using createUser_cases [of s body]
  proof
    assume "snd (createUser s body) = s \<and> createdID (fst (createUser s body)) = None"
    with assms show ?thesis by simp
  next
    assume "\<exists>u. body = Some u \<and> validateUser u = None
          \<and> createdID (fst (createUser s body)) = Some (nextID s)
          \<and> snd (createUser s body)
              = s\<lparr>users := users s @ [u\<lparr>ID := nextID s\<rparr>], nextID := nextID s + 1\<rparr>"
    then obtain u where r: "snd (createUser s body)
        = s\<lparr>users := users s @ [u\<lparr>ID := nextID s\<rparr>], nextID := nextID s + 1\<rparr>" by blast
    have n: "unat (nextID s + 1) = unat (nextID s) + 1"
      using assms(2) by (rule unat_succ)
    from assms(1) have p: "distinct (map ID (users s))"
      "\<forall>v \<in> set (users s). unat (ID v) < unat (nextID s)"
      by (simp_all add: wellFormed_def list_all_iff)
    from p(2) have f: "nextID s \<notin> ID ` set (users s)" by auto
    have "wellFormed (s\<lparr>users := users s @ [u\<lparr>ID := nextID s\<rparr>], nextID := nextID s + 1\<rparr>)"
      using p f n by (auto simp: wellFormed_def list_all_iff)
    with r n show ?thesis by simp
  qed
  then show "wellFormed (snd (createUser s body))"
    and "unat (nextID (snd (createUser s body))) \<le> unat (nextID s) + 1" by simp_all
qed

lemma wellFormed_run:
  "wellFormed s \<Longrightarrow> unat (nextID s) + creations ops < 2 ^ 64 \<Longrightarrow>
     wellFormed (run ops s) \<and> unat (nextID (run ops s)) \<le> unat (nextID s) + creations ops"
proof (induction ops arbitrary: s)
  case Nil
  then show ?case by simp
next
  case (Cons x ops)
  show ?case
  proof (cases x)
    case (Create body)
    with Cons.prems(2) have b: "unat (nextID s) + 1 < 2 ^ 64" by simp
    from wellFormed_create [OF Cons.prems(1) b, of body]
    have w: "wellFormed (snd (createUser s body))"
      and n: "unat (nextID (snd (createUser s body))) \<le> unat (nextID s) + 1" by simp_all
    from n Cons.prems(2) Create
    have "unat (nextID (snd (createUser s body))) + creations ops < 2 ^ 64" by simp
    from Cons.IH [OF w this] n Create show ?thesis by simp
  next
    case (Update idStr body)
    from wellFormed_update [OF Cons.prems(1), of idStr body]
    have w: "wellFormed (snd (updateUser s idStr body))"
      and n: "nextID (snd (updateUser s idStr body)) = nextID s" by simp_all
    from Cons.IH [OF w] Cons.prems(2) n Update show ?thesis by simp
  next
    case (Delete idStr)
    from wellFormed_delete [OF Cons.prems(1), of idStr]
    have w: "wellFormed (snd (deleteUser s idStr))"
      and n: "nextID (snd (deleteUser s idStr)) = nextID s" by simp_all
    from Cons.IH [OF w] Cons.prems(2) n Delete show ?thesis by simp
  qed
qed

subsection \<open>Runs that wrap the counter\<close>

lemma findFrom_last:
  "uid \<notin> ID ` set us \<Longrightarrow> ID x = uid \<Longrightarrow> findFrom i (us @ [x]) uid = Some (x, i + length us)"
  by (induction us arbitrary: i) auto

text \<open>Creating a valid user and deleting it by the id it got leaves the list as it was.\<close>

lemma create_delete:
  assumes "n \<notin> ID ` set us"
  shows "step (step \<lparr>users = us, nextID = n\<rparr> (Create (Some visitor))) (Delete (Itoa n))
       = \<lparr>users = us, nextID = n + 1\<rparr>"
proof -
  have c: "step \<lparr>users = us, nextID = n\<rparr> (Create (Some visitor))
      = \<lparr>users = us @ [visitor\<lparr>ID := n\<rparr>], nextID = n + 1\<rparr>"
    by (simp add: createUser_valid validate_visitor)
  have f: "findUserByID \<lparr>users = us @ [visitor\<lparr>ID := n\<rparr>], nextID = n + 1\<rparr> n
      = Some (visitor\<lparr>ID := n\<rparr>, length us)"
    using findFrom_last [OF assms, of "visitor\<lparr>ID := n\<rparr>" 0] by (simp add: findUserByID_def)
  show ?thesis
    unfolding c by (simp add: deleteUser_def Atoi_Itoa f)
qed

lemma run_churn:
  "(\<forall>j < k. n + of_nat j \<notin> ID ` set us) \<Longrightarrow>
     run (churn k n) \<lparr>users = us, nextID = n\<rparr> = \<lparr>users = us, nextID = n + of_nat k\<rparr>"
proof (induction k arbitrary: n)
  case 0
  show ?case by simp
next
  case (Suc k)
  from Suc.prems have "n + of_nat 0 \<notin> ID ` set us" by blast
  then have f: "n \<notin> ID ` set us" by simp
  have "\<forall>j < k. (n + 1) + of_nat j \<notin> ID ` set us"
  proof (intro allI impI)
    fix j assume "j < k"
    then have "Suc j < Suc k" by simp
    with Suc.prems have "n + of_nat (Suc j) \<notin> ID ` set us" by blast
    then show "(n + 1) + of_nat j \<notin> ID ` set us" by (simp add: ac_simps)
  qed
  from Suc.IH [OF this]
  have "run (churn k (n + 1)) \<lparr>users = us, nextID = n + 1\<rparr>
      = \<lparr>users = us, nextID = n + 1 + of_nat k\<rparr>" .
  with create_delete [OF f] show ?case
    by (simp add: ac_simps)
qed

lemma seed_ids: "ID ` set seedUsers = {1, 2, 3}"
  by (auto simp: seedUsers_def)

lemma counter_clear_of_seed:
  assumes "j < 2 ^ 64 - 3"
  shows "(4 :: go_int) + of_nat j \<notin> ID ` set seedUsers"
proof -
  define w :: go_int where "w = 4 + of_nat j"
  have e: "w = of_nat (4 + j)" by (simp add: w_def)
  have u: "unat w = (4 + j) mod 2 ^ 64"
    unfolding e by (simp only: unat_of_nat) simp
  have "(4 + j) mod 2 ^ 64 \<notin> {1, 2, 3 :: nat}"
  proof (cases "4 + j < 2 ^ 64")
    case True
    then have "(4 + j) mod 2 ^ 64 = 4 + j" by simp
    then show ?thesis by simp
  next
    case False
    with assms have "4 + j = 2 ^ 64" by simp
    then show ?thesis by simp
  qed
  with u have n: "unat w \<notin> {1, 2, 3}" by simp
  have "w \<notin> {1, 2, 3}"
  proof
    assume "w \<in> {1, 2, 3}"
    then have "unat w \<in> {1, 2, 3}" by auto
    with n show False by simp
  qed
  then show ?thesis unfolding seed_ids w_def .
qed

lemma run_churn_initial:
  assumes "k \<le> 2 ^ 64 - 3"
  shows "run (churn k 4) initial = \<lparr>users = seedUsers, nextID = 4 + of_nat k\<rparr>"
proof -
  have "\<forall>j < k. (4 :: go_int) + of_nat j \<notin> ID ` set seedUsers"
    using assms counter_clear_of_seed by simp
  from run_churn [OF this] show ?thesis by (simp add: initial_def)
qed

lemma full_cycle: "run (churn 18446744073709551613 4) initial = \<lparr>users = seedUsers, nextID = 1\<rparr>"
  using run_churn_initial [of 18446744073709551613] by simp

lemma half_cycle:
  "run (churn 9223372036854775803 4) initial
     = \<lparr>users = seedUsers, nextID = 9223372036854775807\<rparr>"
  using run_churn_initial [of 9223372036854775803] by simp

lemma createUser_distinct:
  assumes "distinct (map ID (users s))" "nextID s \<notin> ID ` set (users s)"
  shows "distinct (map ID (users (snd (createUser s body))))"
  using createUser_cases [of s body] assms by auto

lemma sampleRun_result:
  "run sampleRun initial =
     \<lparr>users = [visitor\<lparr>ID := 1\<rparr>, seedUsers ! 2, visitor\<lparr>ID := 4\<rparr>], nextID = 5\<rparr>"
  by (simp add: sampleRun_def createUser_valid validate_visitor initial_def
      deleteUser_def updateUser_def Atoi_digit_examples findUserByID_def seedUsers_def)

subsection \<open>The ids a run hands out\<close>

lemma assignedIDs_append:
  "assignedIDs s (xs @ ys) = assignedIDs s xs @ assignedIDs (run xs s) ys"
proof (induction xs arbitrary: s)
  case Nil
  show ?case by simp
next
  case (Cons x xs)
  then show ?case by (cases x) simp_all
qed

text \<open>
  While the counter stays below \<open>2^63\<close> the ids a run hands out increase strictly, read
  as signed integers, and none is below the counter's value at the start.
\<close>

lemma assignedIDs_increase:
  "sint (nextID s) + int (creations ops) < 2 ^ 63 \<Longrightarrow>
     sorted_wrt (\<lambda>a b. sint a < sint b) (assignedIDs s ops)
     \<and> (\<forall>i \<in> set (assignedIDs s ops). sint (nextID s) \<le> sint i)"
proof (induction ops arbitrary: s)
  case Nil
  show ?case by simp
next
  case (Cons x ops)
  show ?case
  proof (cases x)
    case (Create body)
    from createUser_cases [of s body] show ?thesis
    proof
      assume same: "snd (createUser s body) = s \<and> createdID (fst (createUser s body)) = None"
      from Cons.prems Create have "sint (nextID s) + int (creations ops) < 2 ^ 63" by simp
      from Cons.IH [OF this] same Create show ?thesis by simp
    next
      assume "\<exists>u. body = Some u \<and> validateUser u = None
          \<and> createdID (fst (createUser s body)) = Some (nextID s)
          \<and> snd (createUser s body)
              = s\<lparr>users := users s @ [u\<lparr>ID := nextID s\<rparr>], nextID := nextID s + 1\<rparr>"
      then obtain u where i: "createdID (fst (createUser s body)) = Some (nextID s)"
        and r: "snd (createUser s body)
              = s\<lparr>users := users s @ [u\<lparr>ID := nextID s\<rparr>], nextID := nextID s + 1\<rparr>"
        by blast
      from Cons.prems Create have b: "sint (nextID s) + 1 < 2 ^ 63" by simp
      have n: "sint (nextID s + 1) = sint (nextID s) + 1" using b by (rule sint_succ)
      from r n have n': "sint (nextID (snd (createUser s body))) = sint (nextID s) + 1" by simp
      with Cons.prems Create
      have "sint (nextID (snd (createUser s body))) + int (creations ops) < 2 ^ 63" by simp
      from Cons.IH [OF this] n'
      have ih: "sorted_wrt (\<lambda>a b. sint a < sint b) (assignedIDs (snd (createUser s body)) ops)"
        "\<forall>i \<in> set (assignedIDs (snd (createUser s body)) ops). sint (nextID s) + 1 \<le> sint i"
        by simp_all
      from ih(2) have "\<forall>i \<in> set (assignedIDs (snd (createUser s body)) ops). sint (nextID s) < sint i"
        by auto
      with ih(1) i Create show ?thesis by (auto simp: less_imp_le)
    qed
  next
    case (Update idStr body)
    from update_keeps_ids [of s idStr body]
    have n: "nextID (snd (updateUser s idStr body)) = nextID s" by simp
    with Cons.prems Update
    have "sint (nextID (snd (updateUser s idStr body))) + int (creations ops) < 2 ^ 63" by simp
    from Cons.IH [OF this] n Update show ?thesis by simp
  next
    case (Delete idStr)
    from delete_sublist [of s idStr]
    have n: "nextID (snd (deleteUser s idStr)) = nextID s" by simp
    with Cons.prems Delete
    have "sint (nextID (snd (deleteUser s idStr))) + int (creations ops) < 2 ^ 63" by simp
    from Cons.IH [OF this] n Delete show ?thesis by simp
  qed
qed

lemma createUser_ignores_ID: "createUser s (Some (u\<lparr>ID := i\<rparr>)) = createUser s (Some u)"
  by (simp add: createUser_def split: option.splits)

section \<open>The claims of the specification\<close>

text \<open>
  C1. In every state reached from the three seeded users by a sequence of create,
  update and delete operations with fewer than \<open>2^64 - 4\<close> creates, the ids in the list
  are pairwise distinct. Update and delete keep the ids pairwise distinct in every
  state; create does in every state in which no stored user carries the id the counter
  holds.
\<close>

theorem ids_distinct:
  "(4 + creations ops < 2 ^ 64 \<longrightarrow> distinct (map ID (users (run ops initial))))
   \<and> (distinct (map ID (users s)) \<longrightarrow>
        distinct (map ID (users (step s (Update idStr body))))
        \<and> distinct (map ID (users (step s (Delete delStr))))
        \<and> (nextID s \<notin> ID ` set (users s) \<longrightarrow>
             distinct (map ID (users (step s (Create newUser))))))"
proof (intro conjI impI)
  assume "4 + creations ops < 2 ^ 64"
  then have "unat (nextID initial) + creations ops < 2 ^ 64" by simp
  from wellFormed_run [OF wellFormed_initial this]
  show "distinct (map ID (users (run ops initial)))" by (simp add: wellFormed_def)
next
  assume "distinct (map ID (users s))"
  then show "distinct (map ID (users (step s (Update idStr body))))"
    using update_keeps_ids [of s idStr body] by simp
next
  assume "distinct (map ID (users s))"
  then show "distinct (map ID (users (step s (Delete delStr))))"
    using delete_sublist [of s delStr] by simp
next
  assume "distinct (map ID (users s))" "nextID s \<notin> ID ` set (users s)"
  then show "distinct (map ID (users (step s (Create newUser))))"
    using createUser_distinct [of s newUser] by simp
qed

theorem ids_distinct_witness:
  "4 + creations sampleRun < 2 ^ 64
   \<and> map ID (users (run sampleRun initial)) = [1, 3, 4]
   \<and> distinct (map ID (users (run sampleRun initial)))
   \<and> distinct (map ID (users initial)) \<and> nextID initial \<notin> ID ` set (users initial)
   \<and> distinct (map ID (users (step initial (Update ''1'' (Some visitor)))))
   \<and> distinct (map ID (users (step initial (Delete ''2''))))
   \<and> distinct (map ID (users (step initial (Create (Some visitor)))))"
proof -
  have c: "4 + creations sampleRun < 2 ^ 64" by (simp add: sampleRun_def)
  have m: "map ID (users (run sampleRun initial)) = [1, 3, 4]"
    by (simp add: sampleRun_result seedUsers_def)
  have d: "distinct (map ID (users initial))" "nextID initial \<notin> ID ` set (users initial)"
    by (simp_all add: seedUsers_def)
  from ids_distinct [of sampleRun] c
  have r: "distinct (map ID (users (run sampleRun initial)))" by blast
  from ids_distinct [where s = initial and idStr = "''1''" and body = "Some visitor"
      and delStr = "''2''" and newUser = "Some visitor"] d
  have s: "distinct (map ID (users (step initial (Update ''1'' (Some visitor)))))"
    "distinct (map ID (users (step initial (Delete ''2''))))"
    "distinct (map ID (users (step initial (Create (Some visitor)))))"
    by blast+
  from c m r d s show ?thesis by (simp only: simp_thms)
qed

text \<open>
  After \<open>2^64 - 3\<close> rounds of creating a user and deleting it again the counter has
  wrapped around to 1, the id of the first seeded user, and the next create stores a
  second user with id 1.
\<close>

theorem ids_collide_after_wrap:
  "map ID (users (run (churn 18446744073709551613 4 @ [Create (Some visitor)]) initial))
     = [1, 2, 3, 1]
   \<and> \<not> distinct (map ID (users
         (run (churn 18446744073709551613 4 @ [Create (Some visitor)]) initial)))"
  by (simp add: run_append full_cycle createUser_valid validate_visitor seedUsers_def)

text \<open>
  C2. Ids are assigned by the server: a successful create gives the new user the value
  of the counter and advances the counter by one, whatever id the request body carries.
  Over every run from the seeded store with fewer than \<open>2^63 - 4\<close> creates, each id
  handed out is strictly greater (as a signed integer) than every id handed out before
  it and than the seeded ids.
\<close>

theorem ids_increase:
  "(4 + creations ops < 2 ^ 63 \<longrightarrow>
      sorted_wrt (\<lambda>a b. sint a < sint b) (assignedIDs initial ops)
      \<and> list_all (\<lambda>i. 3 < sint i) (assignedIDs initial ops))
   \<and> createUser s (Some (u\<lparr>ID := i\<rparr>)) = createUser s (Some u)
   \<and> (validateUser u = None \<longrightarrow>
        createdID (fst (createUser s (Some u))) = Some (nextID s)
        \<and> nextID (snd (createUser s (Some u))) = nextID s + 1)"
proof (intro conjI impI)
  assume "4 + creations ops < 2 ^ 63"
  then have "sint (nextID initial) + int (creations ops) < 2 ^ 63" by simp
  from assignedIDs_increase [OF this]
  have s: "sorted_wrt (\<lambda>a b. sint a < sint b) (assignedIDs initial ops)"
    and l: "\<forall>i \<in> set (assignedIDs initial ops). 4 \<le> sint i" by simp_all
  from s show "sorted_wrt (\<lambda>a b. sint a < sint b) (assignedIDs initial ops)" .
  from l show "list_all (\<lambda>i. 3 < sint i) (assignedIDs initial ops)"
    by (auto simp: list_all_iff)
next
  show "createUser s (Some (u\<lparr>ID := i\<rparr>)) = createUser s (Some u)"
    by (rule createUser_ignores_ID)
next
  assume "validateUser u = None"
  then show "createdID (fst (createUser s (Some u))) = Some (nextID s)"
    by (simp add: createUser_valid createdID_def)
next
  assume "validateUser u = None"
  then show "nextID (snd (createUser s (Some u))) = nextID s + 1"
    by (simp add: createUser_valid)
qed

theorem ids_increase_witness:
  "4 + creations twoCreates < 2 ^ 63
   \<and> assignedIDs initial twoCreates = [4, 5]
   \<and> sorted_wrt (\<lambda>a b. sint a < sint b) (assignedIDs initial twoCreates)
   \<and> validateUser visitor = None
   \<and> createdID (fst (createUser initial (Some visitor))) = Some 4"
proof -
  have c: "4 + creations twoCreates < 2 ^ 63" by (simp add: twoCreates_def)
  have a: "assignedIDs initial twoCreates = [4, 5]"
    by (simp add: twoCreates_def createUser_valid validate_visitor createdID_def initial_def
        deleteUser_def Atoi_digit_examples findUserByID_def seedUsers_def)
  from ids_increase [where ops = twoCreates and s = initial and u = visitor] c validate_visitor
  have "sorted_wrt (\<lambda>a b. sint a < sint b) (assignedIDs initial twoCreates)"
    and "createdID (fst (createUser initial (Some visitor))) = Some 4" by simp_all
  with c a validate_visitor show ?thesis by simp
qed

text \<open>
  After \<open>2^63 - 5\<close> rounds of creating a user and deleting it again the counter stands
  at \<open>2^63 - 1\<close>, the greatest \<open>int\<close>. The next two creates hand out \<open>2^63 - 1\<close> and then
  \<open>-2^63\<close>: the later id is the smaller one.
\<close>

theorem ids_wrap_negative:
  "assignedIDs (run (churn 9223372036854775803 4) initial)
       [Create (Some visitor), Create (Some visitor)]
     = [9223372036854775807, 9223372036854775807 + 1]
   \<and> sint (9223372036854775807 :: go_int) = 9223372036854775807
   \<and> sint (9223372036854775807 + 1 :: go_int) = - 9223372036854775808
   \<and> \<not> sorted_wrt (\<lambda>a b. sint a < sint b)
        (assignedIDs initial
           (churn 9223372036854775803 4 @ [Create (Some visitor), Create (Some visitor)]))"
proof -
  have a: "assignedIDs (run (churn 9223372036854775803 4) initial)
       [Create (Some visitor), Create (Some visitor)]
     = [9223372036854775807, 9223372036854775807 + 1]"
    by (simp add: half_cycle createUser_valid validate_visitor createdID_def)
  have s1: "sint (9223372036854775807 :: go_int) = 9223372036854775807" by simp
  have s2: "sint (9223372036854775807 + 1 :: go_int) = - 9223372036854775808" by simp
  have "\<not> sorted_wrt (\<lambda>a b. sint a < sint b)
        [9223372036854775807, 9223372036854775807 + 1 :: go_int]"
    by (simp only: sorted_wrt.simps list.set ball_simps s1 s2) simp
  then have "\<not> sorted_wrt (\<lambda>a b. sint a < sint b)
        (assignedIDs initial
           (churn 9223372036854775803 4 @ [Create (Some visitor), Create (Some visitor)]))"
    by (simp only: assignedIDs_append a sorted_wrt_append) simp
  with a s1 s2 show ?thesis by (simp only: simp_thms)
qed

text \<open>
  C3. CRUD round trip. In every state in which no stored user carries the id the
  counter holds, creating a valid payload \<open>u\<close> answers 201 with the counter's value as id,
  and a get-by-id with a numeral of that id then answers 200 with the user \<open>u\<close> under
  that id: same name, email and age. The decimal rendering of the id is such a numeral,
  and the condition on the state holds after every run from the seeded store with fewer
  than \<open>2^64 - 4\<close> creates.
\<close>

theorem create_then_get:
  "(validateUser u = None \<and> nextID s \<notin> ID ` set (users s) \<and> Atoi idStr = Some (nextID s) \<longrightarrow>
      fst (fst (createUser s (Some u))) = StatusCreated
      \<and> createdID (fst (createUser s (Some u))) = Some (nextID s)
      \<and> fst (getUserByID (snd (createUser s (Some u))) idStr)
          = (StatusOK, \<lparr>Success = True, Data = UserPointer (u\<lparr>ID := nextID s\<rparr>),
               Message = [], Error = [], Code = StatusOK\<rparr>))
   \<and> Atoi (Itoa (nextID s)) = Some (nextID s)
   \<and> (4 + creations ops < 2 ^ 64 \<longrightarrow>
        nextID (run ops initial) \<notin> ID ` set (users (run ops initial)))"
proof (intro conjI impI)
  assume h: "validateUser u = None \<and> nextID s \<notin> ID ` set (users s)
      \<and> Atoi idStr = Some (nextID s)"
  then have c: "createUser s (Some u) =
     ((StatusCreated,
       \<lparr>Success = True, Data = UserValue (u\<lparr>ID := nextID s\<rparr>),
        Message = ''User created successfully.'', Error = [], Code = StatusCreated\<rparr>),
      s\<lparr>users := users s @ [u\<lparr>ID := nextID s\<rparr>], nextID := nextID s + 1\<rparr>)"
    by (simp add: createUser_valid)
  show "fst (fst (createUser s (Some u))) = StatusCreated" by (simp add: c)
  show "createdID (fst (createUser s (Some u))) = Some (nextID s)"
    by (simp add: c createdID_def)
  have f: "findUserByID (s\<lparr>users := users s @ [u\<lparr>ID := nextID s\<rparr>], nextID := nextID s + 1\<rparr>)
      (nextID s) = Some (u\<lparr>ID := nextID s\<rparr>, length (users s))"
    using h findFrom_last [of "nextID s" "users s" "u\<lparr>ID := nextID s\<rparr>" 0]
    by (simp add: findUserByID_def)
  show "fst (getUserByID (snd (createUser s (Some u))) idStr)
          = (StatusOK, \<lparr>Success = True, Data = UserPointer (u\<lparr>ID := nextID s\<rparr>),
               Message = [], Error = [], Code = StatusOK\<rparr>)"
    using h by (simp add: c getUserByID_def f)
next
  show "Atoi (Itoa (nextID s)) = Some (nextID s)" by (rule Atoi_Itoa)
next
  assume "4 + creations ops < 2 ^ 64"
  then have "unat (nextID initial) + creations ops < 2 ^ 64" by simp
  from wellFormed_run [OF wellFormed_initial this]
  show "nextID (run ops initial) \<notin> ID ` set (users (run ops initial))"
    by (simp add: wellFormed_fresh)
qed

theorem create_then_get_witness:
  "validateUser visitor = None \<and> nextID initial \<notin> ID ` set (users initial)
   \<and> Atoi ''4'' = Some (nextID initial)
   \<and> fst (fst (createUser initial (Some visitor))) = StatusCreated
   \<and> createdID (fst (createUser initial (Some visitor))) = Some 4
   \<and> Data (snd (fst (getUserByID (snd (createUser initial (Some visitor))) ''4'')))
       = UserPointer (visitor\<lparr>ID := 4\<rparr>)
   \<and> 4 + creations sampleRun < 2 ^ 64
   \<and> nextID (run sampleRun initial) \<notin> ID ` set (users (run sampleRun initial))"
proof -
  have h: "validateUser visitor = None \<and> nextID initial \<notin> ID ` set (users initial)
      \<and> Atoi ''4'' = Some (nextID initial)"
    by (simp add: validate_visitor Atoi_digit_examples seedUsers_def)
  have c: "4 + creations sampleRun < 2 ^ 64" by (simp add: sampleRun_def)
  from create_then_get [of visitor initial "''4''" sampleRun] h c show ?thesis by simp
qed

text \<open>
  In the state the same \<open>2^64 - 3\<close> rounds lead to, the create answers with id 1, and
  the get-by-id of 1 returns the first seeded user, John Doe, not the user created.
\<close>

theorem create_then_get_after_wrap:
  "validateUser visitor = None
   \<and> createdID (fst (createUser (run (churn 18446744073709551613 4) initial) (Some visitor)))
       = Some 1
   \<and> Atoi ''1'' = Some 1
   \<and> Data (snd (fst (getUserByID
        (snd (createUser (run (churn 18446744073709551613 4) initial) (Some visitor))) ''1'')))
       = UserPointer \<lparr>ID = 1, Name = ''John Doe'', Email = ''john@example.com'', Age = 30\<rparr>
   \<and> Name visitor \<noteq> ''John Doe''"
  by (simp add: full_cycle createUser_valid validate_visitor createdID_def getUserByID_def
      Atoi_digit_examples findUserByID_def seedUsers_def)
    (simp add: visitor_def)

text \<open>
  C4. Validation accepts a payload exactly when its name is not blank (neither empty
  nor white space only), its email contains \<open>@\<close> (an empty or blank email contains
  none) and its age lies in [1,150]. Create answers a bound payload with 400 exactly
  when validation refuses it; so does update, for an id parameter that Atoi accepts and
  that a stored user carries (update looks the id up first and answers 404 otherwise).
\<close>

theorem validation_exact:
  "(validateUser u = None \<longleftrightarrow>
      \<not> whiteSpaceOnly (Name u) \<and> CHR ''@'' \<in> set (Email u)
      \<and> 1 \<le> sint (Age u) \<and> sint (Age u) \<le> 150)
   \<and> (fst (fst (createUser s (Some u))) = StatusBadRequest \<longleftrightarrow> validateUser u \<noteq> None)
   \<and> (Atoi idStr = Some uid \<and> uid \<in> ID ` set (users s) \<longrightarrow>
        (fst (fst (updateUser s idStr (Some u))) = StatusBadRequest \<longleftrightarrow> validateUser u \<noteq> None))"
  using validateUser_None_iff [of u] createUser_status [of s u] updateUser_status [of idStr uid s u]
  by simp

theorem validation_exact_witness:
  "Atoi ''2'' = Some 2 \<and> 2 \<in> ID ` set (users initial)
   \<and> validateUser blankName \<noteq> None
   \<and> fst (fst (createUser initial (Some blankName))) = StatusBadRequest
   \<and> fst (fst (updateUser initial ''2'' (Some blankName))) = StatusBadRequest"
proof -
  have a: "Atoi ''2'' = Some 2" by (rule Atoi_digit_examples)
  have m: "(2 :: go_int) \<in> ID ` set (users initial)" by (simp add: seedUsers_def)
  have v: "validateUser blankName \<noteq> None" by (simp add: validate_blankName)
  from validation_exact [of blankName initial "''2''" 2] a m v show ?thesis by simp
qed

text \<open>
  The payload with the name \<open>" "\<close>: the name is not empty, the email is not empty and
  contains \<open>@\<close>, the age is in range, and create answers 400.
\<close>

theorem blank_name_rejected:
  "Name blankName \<noteq> [] \<and> Email blankName \<noteq> [] \<and> Contains (Email blankName) ''@''
   \<and> 1 \<le> sint (Age blankName) \<and> sint (Age blankName) \<le> 150
   \<and> fst (fst (createUser initial (Some blankName))) = StatusBadRequest
   \<and> Error (snd (fst (createUser initial (Some blankName)))) = ''name is required''"
  by (simp add: createUser_def validate_blankName failure_def)
    (simp add: blankName_def startsWith_def)






text \<open>
  C7. Error atomicity: whenever create, update, delete, get-by-id or search answers
  400 or 404, the user list and the counter are the same after the request as before it.
\<close>

theorem error_atomicity:
  "(fst (fst (createUser s body)) \<in> {StatusBadRequest, StatusNotFound}
      \<longrightarrow> snd (createUser s body) = s)
   \<and> (fst (fst (updateUser s idStr body)) \<in> {StatusBadRequest, StatusNotFound}
      \<longrightarrow> snd (updateUser s idStr body) = s)
   \<and> (fst (fst (deleteUser s idStr)) \<in> {StatusBadRequest, StatusNotFound}
      \<longrightarrow> snd (deleteUser s idStr) = s)
   \<and> (fst (fst (getUserByID s idStr)) \<in> {StatusBadRequest, StatusNotFound}
      \<longrightarrow> snd (getUserByID s idStr) = s)
   \<and> (fst (fst (searchUsers mapUnicode s searchName)) \<in> {StatusBadRequest, StatusNotFound}
      \<longrightarrow> snd (searchUsers mapUnicode s searchName) = s)"
proof (intro conjI)
  show "fst (fst (createUser s body)) \<in> {StatusBadRequest, StatusNotFound}
      \<longrightarrow> snd (createUser s body) = s"
    by (simp add: createUser_def split: option.splits)
  show "fst (fst (updateUser s idStr body)) \<in> {StatusBadRequest, StatusNotFound}
      \<longrightarrow> snd (updateUser s idStr body) = s"
    by (simp add: updateUser_def split: option.splits prod.splits)
  show "fst (fst (deleteUser s idStr)) \<in> {StatusBadRequest, StatusNotFound}
      \<longrightarrow> snd (deleteUser s idStr) = s"
    by (simp add: deleteUser_def split: option.splits prod.splits)
  show "fst (fst (getUserByID s idStr)) \<in> {StatusBadRequest, StatusNotFound}
      \<longrightarrow> snd (getUserByID s idStr) = s"
    by (simp add: getUserByID_def split: option.splits prod.splits)
  show "fst (fst (searchUsers mapUnicode s searchName)) \<in> {StatusBadRequest, StatusNotFound}
      \<longrightarrow> snd (searchUsers mapUnicode s searchName) = s"
    by (simp add: searchUsers_def Let_def)
qed

theorem error_atomicity_witness:
  "fst (fst (createUser initial None)) = StatusBadRequest
   \<and> snd (createUser initial None) = initial
   \<and> fst (fst (updateUser initial ''9'' (Some visitor))) = StatusNotFound
   \<and> snd (updateUser initial ''9'' (Some visitor)) = initial
   \<and> fst (fst (deleteUser initial ''x'')) = StatusBadRequest
   \<and> snd (deleteUser initial ''x'') = initial
   \<and> fst (fst (getUserByID initial ''9'')) = StatusNotFound
   \<and> snd (getUserByID initial ''9'') = initial
   \<and> fst (fst (searchUsers (\<lambda>x. x) initial [])) = StatusBadRequest
   \<and> snd (searchUsers (\<lambda>x. x) initial []) = initial"
proof -
  have c: "fst (fst (createUser initial None)) = StatusBadRequest"
    by (simp add: createUser_def)
  have n: "findUserByID initial 9 = None"
    by (simp add: findUserByID_def seedUsers_def)
  have u: "fst (fst (updateUser initial ''9'' (Some visitor))) = StatusNotFound"
    by (simp add: updateUser_def Atoi_digit_examples n)
  have x: "Atoi ''x'' = None"
    by (simp add: Atoi_def isDigit_def)
  have d: "fst (fst (deleteUser initial ''x'')) = StatusBadRequest"
    by (simp add: deleteUser_def x)
  have g: "fst (fst (getUserByID initial ''9'')) = StatusNotFound"
    by (simp add: getUserByID_def Atoi_digit_examples n)
  have q: "fst (fst (searchUsers (\<lambda>x. x) initial [])) = StatusBadRequest"
    by (simp add: searchUsers_def)
  from error_atomicity [where s = initial and body = None] c
  have c': "snd (createUser initial None) = initial" by simp
  from error_atomicity [where s = initial and body = "Some visitor" and idStr = "''9''"] u
  have u': "snd (updateUser initial ''9'' (Some visitor)) = initial" by simp
  from error_atomicity [where s = initial and idStr = "''x''"] d
  have d': "snd (deleteUser initial ''x'') = initial" by simp
  from error_atomicity [where s = initial and idStr = "''9''"] g
  have g': "snd (getUserByID initial ''9'') = initial" by simp
  from error_atomicity [where s = initial and mapUnicode = "\<lambda>x. x" and searchName = "[]"] q
  have q': "snd (searchUsers (\<lambda>x. x) initial []) = initial" by simp
  from c c' u u' d d' g g' q q' show ?thesis by simp
qed

text \<open>
  C8. Frame property of mutation. A successful update of the user with a given id puts
  the new record, under the same id, at the position of the first user with that id;
  the length of the list, every other position, the ids in their order and the counter
  are unchanged. A successful delete removes the entry at the position of the first
  user with that id: the list is one shorter, the entries before and after it keep
  their order, the counter is unchanged, and where the ids are pairwise distinct what
  remains is exactly the users with another id.
\<close>

theorem frame_property:
  "(fst (fst (updateUser s idStr body)) = StatusOK \<longrightarrow>
      (\<exists>uid idx u. Atoi idStr = Some uid \<and> body = Some u \<and> idx < length (users s)
         \<and> ID (users s ! idx) = uid \<and> uid \<notin> ID ` set (take idx (users s))
         \<and> users (snd (updateUser s idStr body)) = (users s)[idx := u\<lparr>ID := uid\<rparr>]
         \<and> users (snd (updateUser s idStr body)) ! idx = u\<lparr>ID := uid\<rparr>
         \<and> (\<forall>j. j \<noteq> idx \<longrightarrow> users (snd (updateUser s idStr body)) ! j = users s ! j)
         \<and> length (users (snd (updateUser s idStr body))) = length (users s)
         \<and> map ID (users (snd (updateUser s idStr body))) = map ID (users s)
         \<and> nextID (snd (updateUser s idStr body)) = nextID s))
   \<and> (fst (fst (deleteUser s idStr)) = StatusOK \<longrightarrow>
      (\<exists>uid idx. Atoi idStr = Some uid \<and> idx < length (users s)
         \<and> ID (users s ! idx) = uid \<and> uid \<notin> ID ` set (take idx (users s))
         \<and> users (snd (deleteUser s idStr)) = take idx (users s) @ drop (Suc idx) (users s)
         \<and> Suc (length (users (snd (deleteUser s idStr)))) = length (users s)
         \<and> nextID (snd (deleteUser s idStr)) = nextID s
         \<and> (distinct (map ID (users s)) \<longrightarrow>
              users (snd (deleteUser s idStr)) = filter (\<lambda>v. ID v \<noteq> uid) (users s))))"
proof (intro conjI impI)
  assume ok: "fst (fst (updateUser s idStr body)) = StatusOK"
  then obtain uid where a: "Atoi idStr = Some uid"
    by (cases "Atoi idStr") (auto simp: updateUser_def)
  from ok a obtain e idx where f: "findUserByID s uid = Some (e, idx)"
    by (cases "findUserByID s uid") (auto simp: updateUser_def)
  from ok a f obtain u where b: "body = Some u"
    by (cases body) (auto simp: updateUser_def)
  from ok a f b have v: "validateUser u = None"
    by (cases "validateUser u") (auto simp: updateUser_def)
  from findUserByID_Some [OF f] have p: "idx < length (users s)" "ID (users s ! idx) = uid"
    "uid \<notin> ID ` set (take idx (users s))" by auto
  have r: "snd (updateUser s idStr body) = s\<lparr>users := (users s)[idx := u\<lparr>ID := uid\<rparr>]\<rparr>"
    by (simp add: updateUser_def a f b v)
  have m: "map ID ((users s)[idx := u\<lparr>ID := uid\<rparr>]) = map ID (users s)"
    using p(1,2) by (simp add: map_update list_update_same_conv)
  show "\<exists>uid idx u. Atoi idStr = Some uid \<and> body = Some u \<and> idx < length (users s)
         \<and> ID (users s ! idx) = uid \<and> uid \<notin> ID ` set (take idx (users s))
         \<and> users (snd (updateUser s idStr body)) = (users s)[idx := u\<lparr>ID := uid\<rparr>]
         \<and> users (snd (updateUser s idStr body)) ! idx = u\<lparr>ID := uid\<rparr>
         \<and> (\<forall>j. j \<noteq> idx \<longrightarrow> users (snd (updateUser s idStr body)) ! j = users s ! j)
         \<and> length (users (snd (updateUser s idStr body))) = length (users s)
         \<and> map ID (users (snd (updateUser s idStr body))) = map ID (users s)
         \<and> nextID (snd (updateUser s idStr body)) = nextID s"
    unfolding r using a b p m by (intro exI [of _ uid] exI [of _ idx] exI [of _ u]) simp
next
  assume ok: "fst (fst (deleteUser s idStr)) = StatusOK"
  then obtain uid where a: "Atoi idStr = Some uid"
    by (cases "Atoi idStr") (auto simp: deleteUser_def)
  from ok a obtain e idx where f: "findUserByID s uid = Some (e, idx)"
    by (cases "findUserByID s uid") (auto simp: deleteUser_def)
  from findUserByID_Some [OF f] have p: "idx < length (users s)" "ID (users s ! idx) = uid"
    "uid \<notin> ID ` set (take idx (users s))" by auto
  have r: "snd (deleteUser s idStr) = s\<lparr>users := take idx (users s) @ drop (Suc idx) (users s)\<rparr>"
    by (simp add: deleteUser_def a f)
  have d: "distinct (map ID (users s)) \<longrightarrow>
      take idx (users s) @ drop (Suc idx) (users s) = filter (\<lambda>v. ID v \<noteq> uid) (users s)"
    using filter_take_drop_distinct [of ID "users s" idx] p(1,2) by auto
  show "\<exists>uid idx. Atoi idStr = Some uid \<and> idx < length (users s)
         \<and> ID (users s ! idx) = uid \<and> uid \<notin> ID ` set (take idx (users s))
         \<and> users (snd (deleteUser s idStr)) = take idx (users s) @ drop (Suc idx) (users s)
         \<and> Suc (length (users (snd (deleteUser s idStr)))) = length (users s)
         \<and> nextID (snd (deleteUser s idStr)) = nextID s
         \<and> (distinct (map ID (users s)) \<longrightarrow>
              users (snd (deleteUser s idStr)) = filter (\<lambda>v. ID v \<noteq> uid) (users s))"
    unfolding r using a p d by (intro exI [of _ uid] exI [of _ idx]) auto
qed

theorem frame_property_witness:
  "fst (fst (updateUser initial ''2'' (Some visitor))) = StatusOK
   \<and> users (snd (updateUser initial ''2'' (Some visitor)))
       = [seedUsers ! 0, visitor\<lparr>ID := 2\<rparr>, seedUsers ! 2]
   \<and> fst (fst (deleteUser initial ''2'')) = StatusOK
   \<and> users (snd (deleteUser initial ''2'')) = [seedUsers ! 0, seedUsers ! 2]
   \<and> length (users (snd (updateUser initial ''2'' (Some visitor)))) = length (users initial)
   \<and> Suc (length (users (snd (deleteUser initial ''2'')))) = length (users initial)
   \<and> distinct (map ID (users initial))
   \<and> users (snd (deleteUser initial ''2'')) = filter (\<lambda>v. ID v \<noteq> 2) (users initial)"
proof -
  have u: "fst (fst (updateUser initial ''2'' (Some visitor))) = StatusOK"
    by (simp add: updateUser_def Atoi_digit_examples seed_lookup validate_visitor)
  have d: "fst (fst (deleteUser initial ''2'')) = StatusOK"
    by (simp add: deleteUser_def Atoi_digit_examples seed_lookup)
  have us: "users (snd (updateUser initial ''2'' (Some visitor)))
       = [seedUsers ! 0, visitor\<lparr>ID := 2\<rparr>, seedUsers ! 2]"
    by (simp add: updateUser_def Atoi_digit_examples seed_lookup validate_visitor seedUsers_def)
  have ds: "users (snd (deleteUser initial ''2'')) = [seedUsers ! 0, seedUsers ! 2]"
    by (simp add: deleteUser_def Atoi_digit_examples seed_lookup seedUsers_def)
  have di: "distinct (map ID (users initial))" by (simp add: seedUsers_def)
  from frame_property [of initial "''2''" "Some visitor"] u d di Atoi_digit_examples(2)
  have "length (users (snd (updateUser initial ''2'' (Some visitor)))) = length (users initial)"
    and "Suc (length (users (snd (deleteUser initial ''2'')))) = length (users initial)"
    and "users (snd (deleteUser initial ''2'')) = filter (\<lambda>v. ID v \<noteq> 2) (users initial)"
    by auto
  with u d us ds di show ?thesis by (simp only: simp_thms)
qed

text \<open>
  C9. A name or an email that consists only of white-space characters is refused:
  validation returns an error, create answers 400, and so does update of a stored
  user; the state is unchanged. Such a string need not be empty.
\<close>

theorem blank_fields_rejected:
  assumes "whiteSpaceOnly (Name u) \<or> whiteSpaceOnly (Email u)"
  shows "validateUser u \<noteq> None
       \<and> fst (fst (createUser s (Some u))) = StatusBadRequest
       \<and> snd (createUser s (Some u)) = s
       \<and> (Atoi idStr = Some uid \<and> uid \<in> ID ` set (users s) \<longrightarrow>
            fst (fst (updateUser s idStr (Some u))) = StatusBadRequest
            \<and> snd (updateUser s idStr (Some u)) = s)"
proof -
  from assms have v: "validateUser u \<noteq> None"
    by (auto simp: validateUser_def TrimSpace_empty_iff)
  then obtain err where e: "validateUser u = Some err" by auto
  have c: "createUser s (Some u) = (failure StatusBadRequest err, s)"
    by (simp add: createUser_def e)
  have "Atoi idStr = Some uid \<and> uid \<in> ID ` set (users s) \<longrightarrow>
          updateUser s idStr (Some u) = (failure StatusBadRequest err, s)"
    using findUserByID_None [of s uid]
    by (auto simp: updateUser_def e split: option.splits)
  with v c show ?thesis by auto
qed

theorem blank_fields_rejected_witness:
  "whiteSpaceOnly (Name blankName) \<and> Name blankName \<noteq> []
   \<and> whiteSpaceOnly (Email blankEmail) \<and> Email blankEmail \<noteq> []
   \<and> fst (fst (createUser initial (Some blankName))) = StatusBadRequest
   \<and> fst (fst (createUser initial (Some blankEmail))) = StatusBadRequest
   \<and> Atoi ''2'' = Some 2 \<and> 2 \<in> ID ` set (users initial)
   \<and> fst (fst (updateUser initial ''2'' (Some blankEmail))) = StatusBadRequest
   \<and> snd (updateUser initial ''2'' (Some blankEmail)) = initial"
proof -
  have sp: "'' '' \<in> set spaceRunes" "[CHR 0x09] \<in> set spaceRunes"
    by (simp_all add: spaceRunes_def)
  have w1: "whiteSpaceOnly (Name blankName)"
    using whiteSpaceOnly.rune [OF sp(1) whiteSpaceOnly.empty] by (simp add: blankName_def)
  have "whiteSpaceOnly ([CHR 0x09] @ '' '' @ [])"
    by (intro whiteSpaceOnly.rune sp whiteSpaceOnly.empty)
  then have w2: "whiteSpaceOnly (Email blankEmail)" by (simp add: blankEmail_def)
  have a: "Atoi ''2'' = Some 2" by (rule Atoi_digit_examples)
  have m: "(2 :: go_int) \<in> ID ` set (users initial)" by (simp add: seedUsers_def)
  have n: "Name blankName \<noteq> []" "Email blankEmail \<noteq> []"
    by (simp_all add: blankName_def blankEmail_def)
  from blank_fields_rejected [of blankName initial] w1
  have c1: "fst (fst (createUser initial (Some blankName))) = StatusBadRequest" by simp
  from blank_fields_rejected [of blankEmail initial "''2''" 2] w2 a m
  have c2: "fst (fst (createUser initial (Some blankEmail))) = StatusBadRequest"
    "fst (fst (updateUser initial ''2'' (Some blankEmail))) = StatusBadRequest"
    "snd (updateUser initial ''2'' (Some blankEmail)) = initial" by simp_all
  from w1 w2 a m n c1 c2 show ?thesis by simp
qed

text \<open>
  C10. For every state and every non-empty query, a name search that matches no user
  answers 200, never 404, and lists no user: the data field holds a nil slice. A nil
  slice in an interface is not the nil interface, so \<open>omitempty\<close> keeps the field, and
  the body has the keys success, data and code.
\<close>

theorem search_no_match:
  assumes "searchName \<noteq> []"
    and "filter (\<lambda>u. containsIgnoreCase mapUnicode (Name u) searchName) (users s) = []"
  shows "fst (fst (searchUsers mapUnicode s searchName)) = StatusOK
       \<and> resultUsers (fst (searchUsers mapUnicode s searchName)) = []
       \<and> Data (snd (fst (searchUsers mapUnicode s searchName))) = UserSlice None
       \<and> jsonKeys (snd (fst (searchUsers mapUnicode s searchName)))
           = [''success'', ''data'', ''code'']"
proof -
  have "foldl (\<lambda>acc user.
           if Contains (ToLower mapUnicode (Name user)) (ToLower mapUnicode searchName)
           then appendUser acc user else acc) None (users s) = None"
    using assms(2) by (simp add: search_loop_nil Contains_lower)
  with assms(1) show ?thesis
    by (simp add: searchUsers_def Let_def resultUsers_def jsonKeys_def StatusOK_def)
qed

theorem search_no_match_witness:
  "''zzz'' \<noteq> []
   \<and> filter (\<lambda>u. containsIgnoreCase (\<lambda>x. x) (Name u) ''zzz'') (users initial) = []
   \<and> fst (fst (searchUsers (\<lambda>x. x) initial ''zzz'')) = StatusOK
   \<and> jsonKeys (snd (fst (searchUsers (\<lambda>x. x) initial ''zzz''))) = [''success'', ''data'', ''code'']"
proof -
  have n: "''zzz'' \<noteq> []" by simp
  have f: "filter (\<lambda>u. containsIgnoreCase (\<lambda>x. x) (Name u) ''zzz'') (users initial) = []"
    unfolding Contains_lower [symmetric]
    by (simp add: seedUsers_def lower_examples startsWith_def)
  from search_no_match [OF n f] n f show ?thesis by simp
qed

theorem search_no_match_data_kept:
  "fst (fst (searchUsers (\<lambda>x. x) initial ''zzz'')) = StatusOK
   \<and> Data (snd (fst (searchUsers (\<lambda>x. x) initial ''zzz''))) = UserSlice None
   \<and> Data (snd (fst (searchUsers (\<lambda>x. x) initial ''zzz''))) \<noteq> NilInterface
   \<and> ''data'' \<in> set (jsonKeys (snd (fst (searchUsers (\<lambda>x. x) initial ''zzz''))))"
  by (simp add: searchUsers_def Let_def seedUsers_def lower_examples startsWith_def
      jsonKeys_def StatusOK_def)

end
